theory Spec2Isabelle
  imports Main
begin

section \<open>Python strings and the library functions the program calls\<close>

text \<open>
  A Python \<open>str\<close> is a sequence of Unicode code points. The particles of the program
  contain U+0263 (LATIN SMALL LETTER GAMMA), so a string is a list of code points, not a
  list of bytes.
\<close>

type_synonym cp = nat
type_synonym pystr = "cp list"

definition cps :: "string \<Rightarrow> pystr" where
  "cps s = map of_char s"

definition gh :: cp where
  "gh = 611"

definition SPACE :: cp where
  "SPACE = 32"

definition HYPHEN :: cp where
  "HYPHEN = 45"

text \<open>
  \<open>\s\<close> in a \<open>str\<close> pattern and \<open>str.strip()\<close> use the same test
  (\<open>str.isspace\<close>); it holds of exactly these 29 code points.
\<close>

definition is_space :: "cp \<Rightarrow> bool" where
  "is_space c = ((9 \<le> c \<and> c \<le> 13) \<or> (28 \<le> c \<and> c \<le> 32) \<or> c = 133 \<or> c = 160
     \<or> c = 5760 \<or> (8192 \<le> c \<and> c \<le> 8202) \<or> c = 8232 \<or> c = 8233 \<or> c = 8239
     \<or> c = 8287 \<or> c = 12288)"

text \<open>
  \<open>str.lower()\<close>, the class \<open>\w\<close> and \<open>str.isupper()\<close> on one character are given by
  the tables of the Unicode database of the interpreter; they are parameters of the
  model. \<open>str_lower\<close> is a function on whole strings, since the lower case of U+03A3
  depends on its neighbours. The program calls the first two; the third says what an
  upper-case character is.
\<close>

record pylib =
  str_lower :: "pystr \<Rightarrow> pystr"
  is_word :: "cp \<Rightarrow> bool"
  is_upper :: "cp \<Rightarrow> bool"

section \<open>The fragment of \<open>re\<close> the program uses\<close>

datatype cls = Word | Space | Chr cp

datatype rx =
    Bnd
  | Rep cls nat
  | Lit pystr
  | Alt rx rx
  | Seq rx rx
  | Grp nat rx

type_synonym caps = "nat \<Rightarrow> (nat \<times> nat) option"

fun in_cls :: "pylib \<Rightarrow> cls \<Rightarrow> cp \<Rightarrow> bool" where
  "in_cls U Word c = is_word U c"
| "in_cls U Space c = is_space c"
| "in_cls U (Chr d) c = (c = d)"

definition word_at :: "pylib \<Rightarrow> pystr \<Rightarrow> nat \<Rightarrow> bool" where
  "word_at U t i = (i < length t \<and> is_word U (t ! i))"

definition at_boundary :: "pylib \<Rightarrow> pystr \<Rightarrow> nat \<Rightarrow> bool" where
  "at_boundary U t i = ((0 < i \<and> word_at U t (i - 1)) \<noteq> word_at U t i)"

text \<open>
  The backtracking matcher: \<open>ms U t r (i, g)\<close> lists, in the order the engine tries
  them, the ways \<open>r\<close> matches \<open>t\<close> from position \<open>i\<close> with the groups \<open>g\<close> set so far,
  each as the end position and the groups. \<open>Rep c n\<close> is the greedy \<open>c{n,}\<close> on a
  one-character class: the longest run first, then one character less at a time.
\<close>

fun ms :: "pylib \<Rightarrow> pystr \<Rightarrow> rx \<Rightarrow> nat \<times> caps \<Rightarrow> (nat \<times> caps) list" where
  "ms U t Bnd (i, g) = (if at_boundary U t i then [(i, g)] else [])"
| "ms U t (Rep c n) (i, g) =
     map (\<lambda>k. (i + k, g)) (rev [n ..< Suc (length (takeWhile (in_cls U c) (drop i t)))])"
| "ms U t (Lit p) (i, g) =
     (if take (length p) (drop i t) = p then [(i + length p, g)] else [])"
| "ms U t (Alt a b) s = ms U t a s @ ms U t b s"
| "ms U t (Seq a b) s = concat (map (ms U t b) (ms U t a s))"
| "ms U t (Grp n a) (i, g) = map (\<lambda>(j, g'). (j, g'(n \<mapsto> (i, j)))) (ms U t a (i, g))"

definition match_at :: "pylib \<Rightarrow> rx \<Rightarrow> pystr \<Rightarrow> nat \<Rightarrow> (nat \<times> caps) option" where
  "match_at U r t i = (case ms U t r (i, Map.empty) of [] \<Rightarrow> None | m # _ \<Rightarrow> Some m)"

datatype titem = TLit pystr | TGrp nat

fun expand :: "pystr \<Rightarrow> caps \<Rightarrow> titem \<Rightarrow> pystr" where
  "expand t g (TLit s) = s"
| "expand t g (TGrp n) = (case g n of None \<Rightarrow> [] | Some (a, b) \<Rightarrow> take (b - a) (drop a t))"

text \<open>
  \<open>re.sub\<close>: from \<open>pos\<close>, the leftmost position with a match is replaced by the expanded
  template and the scan goes on after the match; characters in between are copied. The
  three patterns of the program match non-empty substrings only; after an empty match the
  model copies one character and moves on.
\<close>

function sub_from :: "pylib \<Rightarrow> rx \<Rightarrow> titem list \<Rightarrow> pystr \<Rightarrow> nat \<Rightarrow> pystr" where
  "sub_from U r tm t pos =
     (if length t < pos then []
      else case match_at U r t pos of
        None \<Rightarrow> (if pos < length t then t ! pos # sub_from U r tm t (Suc pos) else [])
      | Some (e, g) \<Rightarrow>
          concat (map (expand t g) tm) @
          (if pos < e then sub_from U r tm t e
           else if pos < length t then t ! pos # sub_from U r tm t (Suc pos) else []))"
  by pat_completeness auto
termination
  by (relation "measure (\<lambda>(U, r, tm, t, pos). Suc (length t) - pos)") auto

declare sub_from.simps [simp del]

definition re_sub :: "pylib \<Rightarrow> rx \<Rightarrow> titem list \<Rightarrow> pystr \<Rightarrow> pystr" where
  "re_sub U r tm t = sub_from U r tm t 0"

text \<open>\<open>re.search\<close>: the leftmost position from \<open>pos\<close> where the pattern matches.\<close>

function search_from :: "pylib \<Rightarrow> rx \<Rightarrow> pystr \<Rightarrow> nat \<Rightarrow> (nat \<times> nat \<times> caps) option" where
  "search_from U r t pos =
     (if length t < pos then None
      else case match_at U r t pos of
        None \<Rightarrow> search_from U r t (Suc pos)
      | Some (e, g) \<Rightarrow> Some (pos, e, g))"
  by pat_completeness auto
termination
  by (relation "measure (\<lambda>(U, r, t, pos). Suc (length t) - pos)") auto

declare search_from.simps [simp del]

definition re_search :: "pylib \<Rightarrow> rx \<Rightarrow> pystr \<Rightarrow> (nat \<times> nat \<times> caps) option" where
  "re_search U r t = search_from U r t 0"

definition strip :: "pystr \<Rightarrow> pystr" where
  "strip t = rev (dropWhile is_space (rev (dropWhile is_space t)))"

section \<open>The particle classes\<close>

definition PoPro :: "pystr list" where
  "PoPro = [cps ''inu'', cps ''inem'', cps ''ines'', cps ''nne'' @ [gh], cps ''ntex'',
     cps ''nwen'', cps ''nwent'', cps ''nsen'', cps ''nsent'', cps ''iw'', cps ''ik'',
     cps ''im'', cps ''is'', cps ''w'', cps ''k'', cps ''m'', cps ''s'',
     cps ''tne'' @ [gh], cps ''tentex'', cps ''tsen'', cps ''tsent'']"

definition SpWo :: "pystr list" where
  "SpWo = [cps ''deg'', cps ''gar'', gh # cps ''er'', gh # cps ''ur'', cps ''fell'',
     gh # cps ''ef'', cps ''ddaw'', cps ''nnig'', gh # cps ''id'', cps ''aql'',
     cps ''s'' @ gh # cps ''ur'', cps ''sennig'', cps ''deffir'', cps ''sdat'']"

definition StPaSp :: "pystr list" where
  "StPaSp = [cps ''i'', cps ''am'', cps ''at'', cps ''s'', cps ''ne'' @ [gh], cps ''a'' @ [gh]]"

definition StPa :: "pystr list" where
  "StPa = [cps ''ak'', cps ''as'', cps ''ane'' @ [gh], cps ''ante'' @ [gh], cps ''awen'',
     cps ''awent'', cps ''asen'', cps ''asent'', cps ''k'', cps ''m'', cps ''ntex'',
     cps ''wen'', cps ''went'', cps ''sen'', cps ''sent'', cps ''akem'', cps ''att'',
     cps ''aken'', cps ''akent'', cps ''aten'', cps ''atent'']"

definition DePa :: "pystr list" where
  "DePa = [cps ''a'', cps ''agi'', cps ''nni'', cps ''ihin'', cps ''nniden'']"

definition DiPa :: "pystr list" where
  "DiPa = [cps ''id'', cps ''in'']"

definition FuPa :: "pystr list" where
  "FuPa = [cps ''ad'', cps ''ara'']"

definition DiObPa :: "pystr list" where
  "DiObPa = [cps ''yi'', cps ''k'', cps ''kem'', cps ''t'', cps ''tt'', cps ''ay'',
     cps ''ken'', cps ''kent'', cps ''ten'', cps ''tent'', cps ''iyi'', cps ''ik'',
     cps ''ikem'', cps ''it'', cps ''itt'', cps ''iken'', cps ''ikent'', cps ''iten'',
     cps ''itent'']"

definition InObPa :: "pystr list" where
  "InObPa = [cps ''yi'', cps ''yak'', cps ''yam'', cps ''yas'', cps ''ya'' @ [gh],
     cps ''yawen'', cps ''yawent'', cps ''yasen'', cps ''yasent'']"

text \<open>
  \<open>PoPro.union(SpWo, StPa, StPaSp, DePa, DiPa, FuPa, DiObPa, InObPa)\<close>: a Python set,
  the union of the nine literals.
\<close>

definition all_annexable_particles :: "pystr set" where
  "all_annexable_particles =
     set PoPro \<union> (set SpWo \<union> set StPa \<union> set StPaSp \<union> set DePa \<union> set DiPa \<union> set FuPa
       \<union> set DiObPa \<union> set InObPa)"

text \<open>
  \<open>list(all_annexable_particles)\<close> lists the set in its iteration order, which Python
  does not fix for a set of strings (string hashes are salted per process). The order is
  a parameter \<open>ord\<close> of the model; \<open>iteration_order ord\<close> says that it lists the set,
  each member once.
\<close>

definition iteration_order :: "pystr list \<Rightarrow> bool" where
  "iteration_order ord = (distinct ord \<and> set ord = all_annexable_particles)"

text \<open>\<open>sorted(..., key=len, reverse=True)\<close> is a stable sort by descending length.\<close>

definition sorted_all_annexable :: "pystr list \<Rightarrow> pystr list" where
  "sorted_all_annexable ord = sort_key (\<lambda>p. - int (length p)) ord"

text \<open>\<open>'|'.join(ps)\<close> inside a group: the alternation of the literals, in list order.\<close>

fun alts :: "pystr list \<Rightarrow> rx" where
  "alts [] = Lit []"
| "alts [p] = Lit p"
| "alts (p # ps) = Alt (Lit p) (alts ps)"

text \<open>\<open>r'\b(\w{2,})\s+(' + '|'.join(sorted_all_annexable) + r')\b'\<close>\<close>

definition annexation_pattern :: "pystr list \<Rightarrow> rx" where
  "annexation_pattern ord =
     Seq Bnd (Seq (Grp 1 (Rep Word 2)) (Seq (Rep Space 1)
       (Seq (Grp 2 (alts (sorted_all_annexable ord))) Bnd)))"

section \<open>\<open>post_process_kabyle_text\<close>\<close>

text \<open>The body of the function on a \<open>str\<close> argument.\<close>

definition correct :: "pylib \<Rightarrow> pystr list \<Rightarrow> pystr \<Rightarrow> pystr" where
  "correct U ord text =
     (if text = [] then []
      else
        let text1 = str_lower U text;
            text2 = re_sub U (annexation_pattern ord) [TGrp 1, TLit [HYPHEN], TGrp 2] text1;
            text3 = strip (re_sub U (Rep Space 1) [TLit [SPACE]] text2);
            text4 = re_sub U (Rep (Chr HYPHEN) 1) [TLit [HYPHEN]] text3
        in text4)"

text \<open>
  The values the function can receive: a \<open>str\<close>, \<open>None\<close>, another value that JSON can
  encode (a number, a list), or an object that JSON cannot encode; the number tells two
  such values apart. Anything but a \<open>str\<close> is returned as it is.
\<close>

datatype pyval = PStr pystr | PNone | PJson nat | PObject nat

fun post_process_kabyle_text :: "pylib \<Rightarrow> pystr list \<Rightarrow> pyval \<Rightarrow> pyval" where
  "post_process_kabyle_text U ord (PStr s) = PStr (correct U ord s)"
| "post_process_kabyle_text U ord v = v"


section \<open>The endpoint \<open>/transcribe\<close>\<close>

text \<open>
  The request carries at most one file under the field \<open>audio\<close>, with its file name and
  its bytes. A temporary file is known by its path; the state of the disk is the set of
  paths that exist.
\<close>

type_synonym path = nat

record upload =
  filename :: pystr
  payload :: "nat list"

record request =
  files_audio :: "upload option"

text \<open>
  An element of the list the model returns: whether it is truthy, and the value of its
  attribute \<open>text\<close> when it has one.
\<close>

record transcript =
  truthy :: bool
  text_attr :: "pyval option"

datatype 'a outcome = Raises | Returns 'a

text \<open>
  What the collaborators do during one request: the two calls of
  \<open>tempfile.NamedTemporaryFile(delete=False)\<close> (each raises, or creates a file and gives
  its path), \<open>audio_file.save\<close>, the decoding and resampling by \<open>AudioSegment\<close>,
  \<open>processed_audio.export\<close>, \<open>asr_model.transcribe\<close>, and \<open>os.remove\<close> on a path.
\<close>

record world =
  tmp_audio :: "path outcome"
  save_ok :: bool
  decode_ok :: bool
  processed_tmp :: "path outcome"
  export_ok :: bool
  asr_transcribe :: "transcript list outcome"
  remove_ok :: "path \<Rightarrow> bool"

datatype body = Error string | Transcription pyval

type_synonym response = "body \<times> nat"

definition not_loaded :: response where
  "not_loaded = (Error ''ASR model is not loaded.'', 503)"

definition no_audio :: response where
  "no_audio = (Error ''No audio file provided'', 400)"

definition no_selected_file :: response where
  "no_selected_file = (Error ''No selected file'', 400)"

definition audio_error :: response where
  "audio_error =
     (Error ''Failed to process audio file. Please ensure it's a valid audio format.'', 500)"

definition model_error :: response where
  "model_error = (Error ''Transcription failed due to a model error.'', 500)"

definition no_text :: response where
  "no_text = (Error ''Transcription failed. No text returned.'', 500)"

definition internal_error :: response where
  "internal_error = (Error ''An internal server error occurred.'', 500)"

text \<open>
  The values JSON can encode; \<open>jsonify({"transcription": v})\<close> raises on any other.
\<close>

fun json_encodable :: "pyval \<Rightarrow> bool" where
  "json_encodable (PObject n) = False"
| "json_encodable v = True"

fun jsonify_transcription :: "pyval \<Rightarrow> response outcome" where
  "jsonify_transcription (PObject n) = Raises"
| "jsonify_transcription v = Returns (Transcription v, 200)"

text \<open>
  The \<open>try\<close> block with its three \<open>except\<close> clauses: the response, the values of
  \<open>temp_input_file\<close> and \<open>processed_file_path\<close> when the block is left, and the disk.
  Each variable is assigned after the call that fills the file, inside the \<open>with\<close>.
  \<open>respond\<close> is the last \<open>if\<close> of the block, on the list the model returned.
\<close>

definition respond :: "pylib \<Rightarrow> pystr list \<Rightarrow> transcript list \<Rightarrow> response" where
  "respond U ord transcription_list =
     (case transcription_list of
        [] \<Rightarrow> no_text
      | h # _ \<Rightarrow>
          (if \<not> truthy h then no_text
           else (case text_attr h of
                   None \<Rightarrow> no_text
                 | Some raw_transcription \<Rightarrow>
                     (case jsonify_transcription
                             (post_process_kabyle_text U ord raw_transcription) of
                        Raises \<Rightarrow> internal_error
                      | Returns r \<Rightarrow> r))))"

definition try_block ::
  "pylib \<Rightarrow> pystr list \<Rightarrow> world \<Rightarrow> path set \<Rightarrow> response \<times> path option \<times> path option \<times> path set" where
  "try_block U ord W fs =
     (case tmp_audio W of
        Raises \<Rightarrow> (internal_error, None, None, fs)
      | Returns p1 \<Rightarrow>
          (if \<not> save_ok W then (internal_error, None, None, insert p1 fs)
           else if \<not> decode_ok W then (audio_error, Some p1, None, insert p1 fs)
           else (case processed_tmp W of
                   Raises \<Rightarrow> (audio_error, Some p1, None, insert p1 fs)
                 | Returns p2 \<Rightarrow>
                     (if \<not> export_ok W
                      then (audio_error, Some p1, None, insert p2 (insert p1 fs))
                      else (case asr_transcribe W of
                              Raises \<Rightarrow>
                                (model_error, Some p1, Some p2, insert p2 (insert p1 fs))
                            | Returns transcription_list \<Rightarrow>
                                (respond U ord transcription_list, Some p1, Some p2,
                                 insert p2 (insert p1 fs)))))))"

text \<open>
  One statement of the \<open>finally\<close> block:
  \<open>if f and os.path.exists(f): os.remove(f)\<close>. \<open>Raises\<close> when \<open>os.remove\<close> does.
\<close>

definition remove_if_exists :: "world \<Rightarrow> path option \<Rightarrow> path set \<Rightarrow> (path set) outcome" where
  "remove_if_exists W f fs =
     (case f of
        None \<Rightarrow> Returns fs
      | Some p \<Rightarrow>
          if p \<in> fs then (if remove_ok W p then Returns (fs - {p}) else Raises)
          else Returns fs)"

text \<open>
  The view function. \<open>asr_model\<close> is \<open>True\<close> when the model was loaded at start. An
  exception raised in the \<open>finally\<close> block leaves the function in place of the response.
\<close>

definition transcribe ::
  "pylib \<Rightarrow> pystr list \<Rightarrow> bool \<Rightarrow> request \<Rightarrow> world \<Rightarrow> path set \<Rightarrow> response outcome \<times> path set" where
  "transcribe U ord asr_model req W fs =
     (if \<not> asr_model then (Returns not_loaded, fs)
      else case files_audio req of
        None \<Rightarrow> (Returns no_audio, fs)
      | Some audio_file \<Rightarrow>
          if filename audio_file = [] then (Returns no_selected_file, fs)
          else
            (case try_block U ord W fs of
               (resp, temp_input_file, processed_file_path, fs1) \<Rightarrow>
                 (case remove_if_exists W temp_input_file fs1 of
                    Raises \<Rightarrow> (Raises, fs1)
                  | Returns fs2 \<Rightarrow>
                      (case remove_if_exists W processed_file_path fs2 of
                         Raises \<Rightarrow> (Raises, fs2)
                       | Returns fs3 \<Rightarrow> (Returns resp, fs3)))))"

fun status_of :: "response outcome \<Rightarrow> nat option" where
  "status_of Raises = None"
| "status_of (Returns (b, st)) = Some st"

section \<open>Notions used in the statements\<close>

text \<open>Two neighbouring characters that both satisfy \<open>P\<close>.\<close>

fun adjacent :: "(cp \<Rightarrow> bool) \<Rightarrow> pystr \<Rightarrow> bool" where
  "adjacent P (a # b # xs) = ((P a \<and> P b) \<or> adjacent P (b # xs))"
| "adjacent P xs = False"

text \<open>Every maximal run of characters satisfying \<open>P\<close> replaced by the one character \<open>x\<close>.\<close>

function collapse :: "(cp \<Rightarrow> bool) \<Rightarrow> cp \<Rightarrow> pystr \<Rightarrow> pystr" where
  "collapse P x [] = []"
| "collapse P x (a # as) =
     (if P a then x # collapse P x (dropWhile P as) else a # collapse P x as)"
  by pat_completeness auto
termination
  by (relation "measure (\<lambda>(P, x, xs). length xs)") (auto simp: length_dropWhile_le less_Suc_eq_le)

text \<open>
  A character that \<open>str.lower\<close> leaves as it is. The two facts about \<open>str.lower\<close> that
  the statements below rely on: it leaves the characters it returns, the space and the
  hyphen as they are; and it leaves a string of such characters as it is.
\<close>

definition unchanged_by_lower :: "pylib \<Rightarrow> cp \<Rightarrow> bool" where
  "unchanged_by_lower U c = (str_lower U [c] = [c])"

definition lower_result_unchanged :: "pylib \<Rightarrow> bool" where
  "lower_result_unchanged U =
     ((\<forall>s. \<forall>c\<in>set (str_lower U s). unchanged_by_lower U c)
      \<and> unchanged_by_lower U SPACE \<and> unchanged_by_lower U HYPHEN)"

definition lower_keeps_unchanged :: "pylib \<Rightarrow> bool" where
  "lower_keeps_unchanged U = (\<forall>t. (\<forall>c\<in>set t. unchanged_by_lower U c) \<longrightarrow> str_lower U t = t)"

text \<open>
  The tables on Basic Latin and the letter gamma (U+0194, U+0263), for evaluating the
  program on strings over these characters; and the same tables with U+2102
  (DOUBLE-STRUCK CAPITAL C), an upper-case letter and word character that has no lower
  case: \<open>str.lower\<close> leaves it as it is.
\<close>

definition lower_cp :: "cp \<Rightarrow> cp" where
  "lower_cp c = (if 65 \<le> c \<and> c \<le> 90 then c + 32 else if c = 404 then 611 else c)"

definition latin_lib :: pylib where
  "latin_lib = \<lparr> str_lower = map lower_cp,
     is_word = (\<lambda>c. (48 \<le> c \<and> c \<le> 57) \<or> (65 \<le> c \<and> c \<le> 90) \<or> c = 95
        \<or> (97 \<le> c \<and> c \<le> 122) \<or> c = 404 \<or> c = 611),
     is_upper = (\<lambda>c. (65 \<le> c \<and> c \<le> 90) \<or> c = 404) \<rparr>"

definition letterlike_lib :: pylib where
  "letterlike_lib = latin_lib \<lparr> is_word := (\<lambda>c. is_word latin_lib c \<or> c = 8450),
     is_upper := (\<lambda>c. is_upper latin_lib c \<or> c = 8450) \<rparr>"

text \<open>The characters a template item contributes by itself.\<close>

fun lit_chars :: "titem \<Rightarrow> cp set" where
  "lit_chars (TLit s) = set s"
| "lit_chars (TGrp n) = {}"

text \<open>Two iteration orders of the particle set.\<close>

definition ord0 :: "pystr list" where
  "ord0 = remdups (PoPro @ SpWo @ StPa @ StPaSp @ DePa @ DiPa @ FuPa @ DiObPa @ InObPa)"

definition ord1 :: "pystr list" where
  "ord1 = rev ord0"

text \<open>
  A request that carries a file, one whose file has no bytes, and the collaborators of a
  request in which every call succeeds and the model returns the list \<open>ts\<close>.
\<close>

definition a_wav :: request where
  "a_wav = \<lparr> files_audio = Some \<lparr> filename = cps ''a.wav'', payload = [82, 73, 70, 70] \<rparr> \<rparr>"

definition empty_wav :: request where
  "empty_wav = \<lparr> files_audio = Some \<lparr> filename = cps ''a.wav'', payload = [] \<rparr> \<rparr>"

definition all_fine :: "transcript list \<Rightarrow> world" where
  "all_fine ts = \<lparr> tmp_audio = Returns 1, save_ok = True, decode_ok = True,
     processed_tmp = Returns 2, export_ok = True, asr_transcribe = Returns ts,
     remove_ok = (\<lambda>p. True) \<rparr>"

section \<open>The two clean-up substitutions\<close>

lemma ms_Rep1_hd:
  "match_at U (Rep c (Suc 0)) t pos =
     (if pos < length t \<and> in_cls U c (t ! pos)
      then Some (pos + length (takeWhile (in_cls U c) (drop pos t)), Map.empty) else None)"
proof (cases "pos < length t \<and> in_cls U c (t ! pos)")
  case True
  then obtain r where r: "length (takeWhile (in_cls U c) (drop pos t)) = Suc r"
    by (cases "drop pos t") (auto simp: hd_drop_conv_nth Cons_nth_drop_Suc[symmetric])
  show ?thesis using True by (simp add: match_at_def r)
next
  case False
  then have "takeWhile (in_cls U c) (drop pos t) = []"
    by (cases "drop pos t") (auto dest: nth_via_drop simp: not_less)
  then show ?thesis using False by (simp add: match_at_def)
qed

lemma sub_from_Rep1:
  "pos \<le> length t \<Longrightarrow>
   sub_from U (Rep c 1) [TLit [x]] t pos = collapse (in_cls U c) x (drop pos t)"
proof (induction U "Rep c 1" "[TLit [x]]" t pos rule: sub_from.induct)
  case (1 U t pos)
  show ?case
  proof (cases "pos < length t")
    case False
    then show ?thesis using 1(4) by (subst sub_from.simps) (simp add: ms_Rep1_hd)
  next
    case lt: True
    then have dr: "drop pos t = t ! pos # drop (Suc pos) t"
      by (simp add: Cons_nth_drop_Suc)
    show ?thesis
    proof (cases "in_cls U c (t ! pos)")
      case False
      then show ?thesis using lt 1(1) dr
        by (simp add: sub_from.simps[of _ _ _ t pos] ms_Rep1_hd)
    next
      case True
      let ?r = "length (takeWhile (in_cls U c) (drop pos t))"
      have r: "?r = Suc (length (takeWhile (in_cls U c) (drop (Suc pos) t)))"
        using True dr by simp
      have le: "pos + ?r \<le> length t"
        using length_takeWhile_le[of "in_cls U c" "drop pos t"] lt by simp
      have dw: "dropWhile (in_cls U c) (drop (Suc pos) t) = drop (pos + ?r) t"
        unfolding r
        by (metis add_Suc_right add_Suc drop_drop dropWhile_eq_drop add.commute)
      have m: "match_at U (Rep c 1) t pos = Some (pos + ?r, Map.empty)"
        using True lt by (simp add: ms_Rep1_hd)
      have "sub_from U (Rep c 1) [TLit [x]] t pos = x # sub_from U (Rep c 1) [TLit [x]] t (pos + ?r)"
        using lt m r by (simp add: sub_from.simps[of _ _ _ t pos])
      also have "sub_from U (Rep c 1) [TLit [x]] t (pos + ?r) = collapse (in_cls U c) x (drop (pos + ?r) t)"
        using 1(2)[OF _ m refl] lt le r by simp
      finally show ?thesis using True dr dw by simp
    qed
  qed
qed


lemma adjacent_Cons:
  "adjacent P (a # xs) = ((xs \<noteq> [] \<and> P a \<and> P (hd xs)) \<or> adjacent P xs)"
  by (cases xs) auto

lemma adjacent_append_left: "adjacent P xs \<Longrightarrow> adjacent P (xs @ ys)"
  by (induction P xs rule: adjacent.induct) auto

lemma adjacent_append_right: "adjacent P ys \<Longrightarrow> adjacent P (xs @ ys)"
  by (induction xs) (auto simp: adjacent_Cons)

lemma adjacent_dropWhile: "adjacent P (dropWhile Q xs) \<Longrightarrow> adjacent P xs"
  using adjacent_append_right[of P "dropWhile Q xs" "takeWhile Q xs"] by simp

lemma collapse_Nil_iff [simp]: "collapse Q x z = [] \<longleftrightarrow> z = []"
  by (cases z) auto

lemma hd_collapse: "z \<noteq> [] \<Longrightarrow> hd (collapse Q x z) = (if Q (hd z) then x else hd z)"
  by (cases z) auto

lemma last_collapse: "z \<noteq> [] \<Longrightarrow> last (collapse Q x z) = (if Q (last z) then x else last z)"
proof (induction Q x z rule: collapse.induct)
  case (1 Q x)
  then show ?case by simp
next
  case (2 Q x a as)
  show ?case
  proof (cases "Q a")
    case True
    show ?thesis
    proof (cases "dropWhile Q as = []")
      case True
      then have "\<forall>c\<in>set as. Q c" by simp
      then have "Q (last (a # as))" using \<open>Q a\<close> by (cases "as = []") auto
      then show ?thesis using \<open>Q a\<close> True by simp
    next
      case False
      then have ne: "as \<noteq> []" by auto
      have "last (dropWhile Q as) = last as"
        using False by (metis last_appendR takeWhile_dropWhile_id)
      then show ?thesis using 2(1)[OF True False] True False ne by simp
    qed
  next
    case False
    then show ?thesis using 2(2) by (cases "as = []") auto
  qed
qed

lemma collapse_no_adjacent: "Q x \<Longrightarrow> \<not> adjacent Q (collapse Q x z)"
proof (induction Q x z rule: collapse.induct)
  case (1 Q x)
  then show ?case by simp
next
  case (2 Q x a as)
  show ?case
  proof (cases "Q a")
    case True
    have "dropWhile Q as \<noteq> [] \<Longrightarrow> \<not> Q (hd (collapse Q x (dropWhile Q as)))"
      using hd_dropWhile[of Q as] by (simp add: hd_collapse)
    then show ?thesis using True 2 by (auto simp: adjacent_Cons)
  next
    case False
    then show ?thesis using 2 by (auto simp: adjacent_Cons)
  qed
qed

lemma collapse_set: "c \<in> set (collapse Q x z) \<Longrightarrow> c = x \<or> (c \<in> set z \<and> \<not> Q c)"
proof (induction Q x z rule: collapse.induct)
  case (1 Q x)
  then show ?case by simp
next
  case (2 Q x a as)
  then show ?case
    by (cases "Q a") (auto dest: set_dropWhileD)
qed

lemma collapse_keeps_no_adjacent:
  "\<not> P x \<Longrightarrow> \<not> adjacent P z \<Longrightarrow> \<not> adjacent P (collapse Q x z)"
proof (induction Q x z rule: collapse.induct)
  case (1 Q x)
  then show ?case by simp
next
  case (2 Q x a as)
  have as: "\<not> adjacent P as" using 2(4) by (simp add: adjacent_Cons)
  show ?case
  proof (cases "Q a")
    case True
    have "\<not> adjacent P (dropWhile Q as)" using as adjacent_dropWhile by blast
    then show ?thesis using True 2(1) 2(3) by (simp add: adjacent_Cons)
  next
    case False
    have "\<not> adjacent P (collapse Q x as)" using False 2(2) 2(3) as by simp
    moreover have "as \<noteq> [] \<Longrightarrow> P a \<Longrightarrow> \<not> P (hd (collapse Q x as))"
      using 2(3) 2(4) by (auto simp: hd_collapse adjacent_Cons)
    ultimately show ?thesis using False by (auto simp: adjacent_Cons)
  qed
qed

lemma collapse_id:
  "\<not> adjacent P t \<Longrightarrow> \<forall>c\<in>set t. P c \<longrightarrow> c = x \<Longrightarrow> collapse P x t = t"
proof (induction P x t rule: collapse.induct)
  case (1 P x)
  then show ?case by simp
next
  case (2 P x a as)
  have as: "\<not> adjacent P as" using 2(3) by (simp add: adjacent_Cons)
  show ?case
  proof (cases "P a")
    case True
    then have "as = [] \<or> \<not> P (hd as)" using 2(3) by (auto simp: adjacent_Cons)
    then have dw: "dropWhile P as = as" by (simp add: dropWhile_eq_self_iff)
    show ?thesis using True 2(1) 2(4) as dw by simp
  next
    case False
    then show ?thesis using 2(2) 2(4) as by simp
  qed
qed

lemma strip_decomp: "\<exists>ps ss. w = ps @ strip w @ ss"
proof -
  let ?d = "dropWhile is_space w"
  have "?d = rev (dropWhile is_space (rev ?d)) @ rev (takeWhile is_space (rev ?d))"
    by (metis rev_append rev_rev_ident takeWhile_dropWhile_id)
  then have "w = takeWhile is_space w @ strip w @ rev (takeWhile is_space (rev ?d))"
    unfolding strip_def by (metis takeWhile_dropWhile_id)
  then show ?thesis by blast
qed

lemma strip_no_adjacent: "\<not> adjacent P w \<Longrightarrow> \<not> adjacent P (strip w)"
  using strip_decomp[of w] adjacent_append_left adjacent_append_right by metis

lemma strip_set: "set (strip w) \<subseteq> set w"
  unfolding strip_def by (auto dest!: set_dropWhileD)

lemma strip_ends:
  assumes "strip w \<noteq> []"
  shows "\<not> is_space (hd (strip w))" and "\<not> is_space (last (strip w))"
proof -
  let ?d = "dropWhile is_space w"
  let ?e = "dropWhile is_space (rev ?d)"
  have e: "?e \<noteq> []" using assms by (simp add: strip_def)
  then have d: "?d \<noteq> []" by (metis dropWhile.simps(1) rev.simps(1))
  have "last (strip w) = hd ?e" using e by (simp add: strip_def last_rev)
  then show "\<not> is_space (last (strip w))" using hd_dropWhile[OF e] by simp
  have "?d = strip w @ rev (takeWhile is_space (rev ?d))"
    unfolding strip_def by (metis rev_append rev_rev_ident takeWhile_dropWhile_id)
  then have "hd (strip w) = hd ?d" using assms by (metis hd_append2)
  then show "\<not> is_space (hd (strip w))" using hd_dropWhile[OF d] by simp
qed

lemma strip_id: "t = [] \<or> (\<not> is_space (hd t) \<and> \<not> is_space (last t)) \<Longrightarrow> strip t = t"
proof (cases "t = []")
  case True
  then show ?thesis by (simp add: strip_def)
next
  case False
  assume "t = [] \<or> (\<not> is_space (hd t) \<and> \<not> is_space (last t))"
  then have h: "\<not> is_space (hd t)" and l: "\<not> is_space (last t)" using False by auto
  have 1: "dropWhile is_space t = t" using h by (simp add: dropWhile_eq_self_iff)
  have "hd (rev t) = last t" using False by (simp add: hd_rev)
  then have 2: "dropWhile is_space (rev t) = rev t" using l by (simp add: dropWhile_eq_self_iff)
  show ?thesis by (simp add: strip_def 1 2)
qed

section \<open>The alternation and the iteration order of the set\<close>

lemma ms_alts:
  "ps \<noteq> [] \<Longrightarrow> ms U t (alts ps) (i, g) =
     map (\<lambda>p. (i + length p, g)) (filter (\<lambda>p. take (length p) (drop i t) = p) ps)"
  by (induction ps rule: alts.induct) auto

lemma sort_key_unique:
  assumes "distinct xs" "distinct ys" "set xs = set ys" "inj_on f (set xs)"
  shows "sort_key f xs = sort_key f ys"
proof -
  have "map f (sort_key f xs) = map f (sort_key f ys)"
  proof (rule sorted_distinct_set_unique)
    show "distinct (map f (sort_key f xs))" using assms by (simp add: distinct_map)
    show "distinct (map f (sort_key f ys))" using assms by (simp add: distinct_map)
    show "set (map f (sort_key f xs)) = set (map f (sort_key f ys))" using assms by simp
  qed simp_all
  moreover have "inj_on f (set (sort_key f xs) \<union> set (sort_key f ys))" using assms by simp
  ultimately show ?thesis by (simp add: inj_on_map_eq_map)
qed

lemma iteration_order_nonempty: "iteration_order ord \<Longrightarrow> sorted_all_annexable ord \<noteq> []"
proof -
  assume io: "iteration_order ord"
  have "cps ''a'' \<in> all_annexable_particles"
    by (simp add: all_annexable_particles_def DePa_def)
  then have "cps ''a'' \<in> set (sorted_all_annexable ord)"
    using io by (simp add: iteration_order_def sorted_all_annexable_def)
  then show ?thesis by auto
qed

lemma ms_alts_order:
  assumes "iteration_order o1" "iteration_order o2"
  shows "ms U t (alts (sorted_all_annexable o1)) s = ms U t (alts (sorted_all_annexable o2)) s"
proof -
  obtain i g where s: "s = (i, g)" by (cases s)
  let ?P = "\<lambda>p. take (length p) (drop i t) = p"
  let ?f = "\<lambda>p::pystr. - int (length p)"
  have inj: "inj_on ?f (set (filter ?P o1))"
  proof (rule inj_onI)
    fix p q
    assume pin: "p \<in> set (filter ?P o1)" and qin: "q \<in> set (filter ?P o1)"
      and feq: "?f p = ?f q"
    have hp: "take (length p) (drop i t) = p" using pin unfolding set_filter by blast
    have hq: "take (length q) (drop i t) = q" using qin unfolding set_filter by blast
    have len: "length p = length q" using feq by linarith
    show "p = q" using hp hq len by metis
  qed
  have d1: "distinct (filter ?P o1)" and d2: "distinct (filter ?P o2)"
    using assms by (simp_all add: iteration_order_def)
  have st: "set (filter ?P o1) = set (filter ?P o2)"
    using assms by (simp add: iteration_order_def)
  have "sort_key ?f (filter ?P o1) = sort_key ?f (filter ?P o2)"
    by (rule sort_key_unique[OF d1 d2 st inj])
  then have "filter ?P (sorted_all_annexable o1) = filter ?P (sorted_all_annexable o2)"
    by (simp add: sorted_all_annexable_def filter_sort)
  then show ?thesis
    using assms by (simp add: s ms_alts iteration_order_nonempty)
qed

lemma ms_pattern_order:
  assumes "iteration_order o1" "iteration_order o2"
  shows "ms U t (annexation_pattern o1) s = ms U t (annexation_pattern o2) s"
proof -
  let ?A1 = "alts (sorted_all_annexable o1)" and ?A2 = "alts (sorted_all_annexable o2)"
  have e1: "ms U t ?A1 = ms U t ?A2"
    using ms_alts_order[OF assms] by (intro ext)
  have e2: "ms U t (Grp 2 ?A1) = ms U t (Grp 2 ?A2)"
    by (intro ext) (auto simp: e1)
  have e3: "ms U t (Seq (Grp 2 ?A1) Bnd) = ms U t (Seq (Grp 2 ?A2) Bnd)"
    by (intro ext) (simp add: e2)
  have e4: "ms U t (Seq (Rep Space 1) (Seq (Grp 2 ?A1) Bnd))
      = ms U t (Seq (Rep Space 1) (Seq (Grp 2 ?A2) Bnd))"
    by (intro ext) (simp only: ms.simps(5) e3)
  have e5: "ms U t (Seq (Grp 1 (Rep Word 2)) (Seq (Rep Space 1) (Seq (Grp 2 ?A1) Bnd)))
      = ms U t (Seq (Grp 1 (Rep Word 2)) (Seq (Rep Space 1) (Seq (Grp 2 ?A2) Bnd)))"
    by (intro ext) (simp only: ms.simps(5) e4)
  show ?thesis
    unfolding annexation_pattern_def by (simp only: ms.simps(5) e5)
qed

lemma sub_from_cong:
  "(\<And>i. match_at U r t i = match_at U r' t i) \<Longrightarrow> sub_from U r tm t pos = sub_from U r' tm t pos"
proof (induction U r tm t pos rule: sub_from.induct)
  case (1 U r tm t pos)
  have m: "match_at U r t pos = match_at U r' t pos" using "1.prems" by simp
  note L = sub_from.simps[of U r tm t pos] and R = sub_from.simps[of U r' tm t pos]
  show ?case
  proof (cases "length t < pos")
    case True
    then show ?thesis by (simp add: L R)
  next
    case nlt: False
    show ?thesis
    proof (cases "match_at U r t pos")
      case None
      then show ?thesis
        using nlt m "1.IH"(1)[OF nlt None _ "1.prems"] by (simp add: L R)
    next
      case (Some eg)
      obtain e g where eg: "eg = (e, g)" by (cases eg)
      have S: "match_at U r t pos = Some (e, g)" using Some eg by simp
      have S': "match_at U r' t pos = Some (e, g)" using S m by simp
      show ?thesis
      proof (cases "pos < e")
        case True
        then show ?thesis
          using nlt S S' "1.IH"(2)[OF nlt S refl True "1.prems"] by (simp add: L R)
      next
        case False
        then show ?thesis
          using nlt S S' "1.IH"(3)[OF nlt S refl False _ "1.prems"] by (simp add: L R)
      qed
    qed
  qed
qed

lemma correct_order:
  assumes "iteration_order o1" "iteration_order o2"
  shows "correct U o1 s = correct U o2 s"
proof -
  have m: "\<And>t i. match_at U (annexation_pattern o1) t i = match_at U (annexation_pattern o2) t i"
    by (simp add: match_at_def ms_pattern_order[OF assms])
  have "\<And>t tm. re_sub U (annexation_pattern o1) tm t = re_sub U (annexation_pattern o2) tm t"
    unfolding re_sub_def by (rule sub_from_cong) (rule m)
  then show ?thesis by (simp add: correct_def)
qed

section \<open>What one pass produces\<close>

lemma expand_chars: "set (expand t g it) \<subseteq> set t \<union> lit_chars it"
proof (cases it)
  case (TLit s)
  then show ?thesis by simp
next
  case (TGrp n)
  have "set (take k (drop a t)) \<subseteq> set t" for k a
    by (meson set_take_subset set_drop_subset subset_trans)
  then show ?thesis using TGrp by (auto split: option.splits)
qed

lemma expand_all_chars: "set (concat (map (expand t g) tm)) \<subseteq> set t \<union> \<Union> (lit_chars ` set tm)"
  using expand_chars by fastforce

lemma sub_from_chars: "set (sub_from U r tm t pos) \<subseteq> set t \<union> \<Union> (lit_chars ` set tm)"
proof (induction U r tm t pos rule: sub_from.induct)
  case (1 U r tm t pos)
  note L = sub_from.simps[of U r tm t pos]
  show ?case
  proof (cases "length t < pos")
    case True
    then show ?thesis by (simp add: L)
  next
    case nlt: False
    show ?thesis
    proof (cases "match_at U r t pos")
      case None
      then show ?thesis
        using nlt "1.IH"(1)[OF nlt None] by (auto simp: L)
    next
      case (Some eg)
      obtain e g where eg: "eg = (e, g)" by (cases eg)
      have S: "match_at U r t pos = Some (e, g)" using Some eg by simp
      have E: "set (concat (map (expand t g) tm)) \<subseteq> set t \<union> \<Union> (lit_chars ` set tm)"
        by (rule expand_all_chars)
      show ?thesis
      proof (cases "pos < e")
        case True
        have "sub_from U r tm t pos = concat (map (expand t g) tm) @ sub_from U r tm t e"
          using nlt S True by (simp add: L)
        then show ?thesis using E "1.IH"(2)[OF nlt S refl True] by auto
      next
        case False
        show ?thesis
        proof (cases "pos < length t")
          case True
          have "sub_from U r tm t pos
              = concat (map (expand t g) tm) @ t ! pos # sub_from U r tm t (Suc pos)"
            using nlt S False True by (simp add: L)
          then show ?thesis using E "1.IH"(3)[OF nlt S refl False True] True by auto
        next
          case F2: False
          have "sub_from U r tm t pos = concat (map (expand t g) tm)"
            using nlt S False F2 by (simp add: L)
          then show ?thesis using E by auto
        qed
      qed
    qed
  qed
qed

lemma re_sub_space: "re_sub U (Rep Space 1) [TLit [x]] t = collapse is_space x t"
proof -
  have "in_cls U Space = is_space" by (intro ext) simp
  then show ?thesis using sub_from_Rep1[of 0 t U Space x] by (simp add: re_sub_def)
qed

lemma re_sub_hyphen:
  "re_sub U (Rep (Chr HYPHEN) 1) [TLit [x]] t = collapse (\<lambda>c. c = HYPHEN) x t"
proof -
  have "in_cls U (Chr HYPHEN) = (\<lambda>c. c = HYPHEN)" by (intro ext) simp
  then show ?thesis using sub_from_Rep1[of 0 t U "Chr HYPHEN" x] by (simp add: re_sub_def)
qed

lemma correct_unfold:
  "s \<noteq> [] \<Longrightarrow> correct U ord s =
     collapse (\<lambda>c. c = HYPHEN) HYPHEN (strip (collapse is_space SPACE
       (re_sub U (annexation_pattern ord) [TGrp 1, TLit [HYPHEN], TGrp 2] (str_lower U s))))"
  unfolding correct_def Let_def re_sub_space re_sub_hyphen by simp

lemma correct_chars:
  assumes "c \<in> set (correct U ord s)"
  shows "c \<in> set (str_lower U s) \<or> c = SPACE \<or> c = HYPHEN"
proof (cases "s = []")
  case True
  then show ?thesis using assms by (simp add: correct_def)
next
  case False
  let ?t2 = "re_sub U (annexation_pattern ord) [TGrp 1, TLit [HYPHEN], TGrp 2] (str_lower U s)"
  have "c = HYPHEN \<or> c \<in> set (strip (collapse is_space SPACE ?t2))"
    using assms collapse_set[of c "\<lambda>c. c = HYPHEN" HYPHEN] by (auto simp: correct_unfold[OF False])
  then have "c = HYPHEN \<or> c \<in> set (collapse is_space SPACE ?t2)"
    using strip_set by blast
  then have "c = HYPHEN \<or> c = SPACE \<or> c \<in> set ?t2"
    using collapse_set[of c is_space SPACE] by blast
  moreover have "set ?t2 \<subseteq> set (str_lower U s) \<union> {HYPHEN}"
    using sub_from_chars[of U "annexation_pattern ord" "[TGrp 1, TLit [HYPHEN], TGrp 2]" "str_lower U s" 0]
    by (simp add: re_sub_def)
  ultimately show ?thesis by auto
qed

lemma adjacent_mono: "adjacent P xs \<Longrightarrow> (\<And>c. P c \<Longrightarrow> Q c) \<Longrightarrow> adjacent Q xs"
  by (induction P xs rule: adjacent.induct) auto

lemma space_facts: "is_space SPACE" "\<not> is_space HYPHEN"
  by (simp_all add: is_space_def SPACE_def HYPHEN_def)

lemma correct_clean:
  shows "\<not> adjacent is_space (correct U ord s)"
    and "\<forall>c\<in>set (correct U ord s). is_space c \<longrightarrow> c = SPACE"
    and "correct U ord s \<noteq> [] \<longrightarrow>
           \<not> is_space (hd (correct U ord s)) \<and> \<not> is_space (last (correct U ord s))"
    and "\<not> adjacent (\<lambda>c. c = HYPHEN) (correct U ord s)"
proof -
  let ?t2 = "re_sub U (annexation_pattern ord) [TGrp 1, TLit [HYPHEN], TGrp 2] (str_lower U s)"
  let ?w = "collapse is_space SPACE ?t2"
  let ?z = "strip ?w"
  let ?y = "collapse (\<lambda>c. c = HYPHEN) HYPHEN ?z"
  have y: "s \<noteq> [] \<Longrightarrow> correct U ord s = ?y" by (rule correct_unfold)
  have e: "s = [] \<Longrightarrow> correct U ord s = []" by (simp add: correct_def)
  have w1: "\<not> adjacent is_space ?w" by (rule collapse_no_adjacent) (rule space_facts)
  have z1: "\<not> adjacent is_space ?z" using w1 by (rule strip_no_adjacent)
  have y1: "\<not> adjacent is_space ?y"
    using z1 space_facts(2) by (intro collapse_keeps_no_adjacent)
  show "\<not> adjacent is_space (correct U ord s)" using y y1 e by (cases "s = []") simp_all
  have w2: "\<forall>c\<in>set ?w. is_space c \<longrightarrow> c = SPACE" using collapse_set by blast
  have z2: "\<forall>c\<in>set ?z. is_space c \<longrightarrow> c = SPACE" using w2 strip_set by blast
  have y2: "\<forall>c\<in>set ?y. is_space c \<longrightarrow> c = SPACE"
    using z2 collapse_set[of _ "\<lambda>c. c = HYPHEN" HYPHEN ?z] space_facts(2) by blast
  show "\<forall>c\<in>set (correct U ord s). is_space c \<longrightarrow> c = SPACE"
    using y y2 e by (cases "s = []") simp_all
  have y3: "?y \<noteq> [] \<longrightarrow> \<not> is_space (hd ?y) \<and> \<not> is_space (last ?y)"
  proof
    assume "?y \<noteq> []"
    then have z: "?z \<noteq> []" by simp
    have "\<not> is_space (hd ?z)" "\<not> is_space (last ?z)" using strip_ends[OF z] by auto
    then show "\<not> is_space (hd ?y) \<and> \<not> is_space (last ?y)"
      using z space_facts(2) by (simp add: hd_collapse last_collapse)
  qed
  show "correct U ord s \<noteq> [] \<longrightarrow>
           \<not> is_space (hd (correct U ord s)) \<and> \<not> is_space (last (correct U ord s))"
    using y y3 e by (cases "s = []") simp_all
  have y4: "\<not> adjacent (\<lambda>c. c = HYPHEN) ?y" by (rule collapse_no_adjacent) simp
  show "\<not> adjacent (\<lambda>c. c = HYPHEN) (correct U ord s)"
    using y y4 e by (cases "s = []") simp_all
qed

lemma search_none_sub:
  "search_from U r t pos = None \<Longrightarrow> sub_from U r tm t pos = drop pos t"
proof (induction U r t pos rule: search_from.induct)
  case (1 U r t pos)
  note L = sub_from.simps[of U r tm t pos] and S = search_from.simps[of U r t pos]
  show ?case
  proof (cases "length t < pos")
    case True
    then show ?thesis by (simp add: L)
  next
    case nlt: False
    have m: "match_at U r t pos = None"
      using "1.prems" nlt by (cases "match_at U r t pos") (auto simp: S)
    have n: "search_from U r t (Suc pos) = None"
      using "1.prems" nlt m by (simp add: S)
    show ?thesis
      using nlt m "1.IH"[OF nlt m n] by (auto simp: L Cons_nth_drop_Suc)
  qed
qed

lemma correct_fixed:
  assumes lc: "\<forall>c\<in>set t. unchanged_by_lower U c" and keep: "lower_keeps_unchanged U"
    and nomatch: "re_search U (annexation_pattern ord) t = None"
    and a1: "\<not> adjacent is_space t" and a2: "\<forall>c\<in>set t. is_space c \<longrightarrow> c = SPACE"
    and a3: "t \<noteq> [] \<longrightarrow> \<not> is_space (hd t) \<and> \<not> is_space (last t)"
    and a4: "\<not> adjacent (\<lambda>c. c = HYPHEN) t"
  shows "correct U ord t = t"
proof (cases "t = []")
  case True
  then show ?thesis by (simp add: correct_def)
next
  case False
  have l: "str_lower U t = t" using lc keep by (simp add: lower_keeps_unchanged_def)
  have s: "re_sub U (annexation_pattern ord) [TGrp 1, TLit [HYPHEN], TGrp 2] t = t"
    using nomatch search_none_sub[of U "annexation_pattern ord" t 0]
    by (simp add: re_sub_def re_search_def)
  have w: "collapse is_space SPACE t = t" using a1 a2 by (rule collapse_id)
  have z: "strip t = t" using a3 by (intro strip_id) auto
  have y: "collapse (\<lambda>c. c = HYPHEN) HYPHEN t = t" using a4 by (rule collapse_id) simp
  show ?thesis unfolding correct_unfold[OF False] l s w z y by (rule refl)
qed

section \<open>Runs of the program on given texts\<close>

lemma iteration_order_ord0: "iteration_order ord0"
  by (auto simp: iteration_order_def ord0_def all_annexable_particles_def)

lemma iteration_order_ord1: "iteration_order ord1"
  using iteration_order_ord0 by (simp add: iteration_order_def ord1_def)

lemma ms_alts_any_order:
  assumes "iteration_order ord"
  shows "ms U t (alts (sorted_all_annexable ord)) (i, g) =
     map (\<lambda>p. (i + length p, g))
       (sort_key (\<lambda>p. - int (length p)) (filter (\<lambda>p. take (length p) (drop i t) = p) ord0))"
proof -
  have "ms U t (alts (sorted_all_annexable ord)) (i, g)
      = ms U t (alts (sorted_all_annexable ord0)) (i, g)"
    by (rule ms_alts_order[OF assms iteration_order_ord0])
  also have "\<dots> = map (\<lambda>p. (i + length p, g))
       (filter (\<lambda>p. take (length p) (drop i t) = p) (sorted_all_annexable ord0))"
    by (rule ms_alts) (rule iteration_order_nonempty[OF iteration_order_ord0])
  finally show ?thesis by (simp add: sorted_all_annexable_def filter_sort)
qed

lemmas particles_defs = ord0_def PoPro_def SpWo_def StPa_def StPaSp_def DePa_def DiPa_def
  FuPa_def DiObPa_def InObPa_def cps_def gh_def

lemmas run_defs = re_sub_def sub_from.simps match_at_def annexation_pattern_def
  at_boundary_def word_at_def remdups_filter[symmetric] strip_def is_space_def SPACE_def HYPHEN_def

lemmas latin_defs = latin_lib_def lower_cp_def

lemma eval_axxam_ines:
  assumes io: "iteration_order ord"
    and lo: "str_lower U (cps ''axxam ines'') = cps ''axxam ines''"
    and wd: "\<forall>c\<in>set (cps ''axxamines''). is_word U c" and sp: "\<not> is_word U SPACE"
  shows "correct U ord (cps ''axxam ines'') = cps ''axxam-ines''"
proof -
  have ne: "cps ''axxam ines'' \<noteq> []" by (simp add: cps_def)
  show ?thesis
    unfolding correct_unfold[OF ne] lo
    using wd sp by (simp add: run_defs particles_defs ms_alts_any_order[OF io])
qed

lemma latin_axxam_ines:
  "str_lower latin_lib (cps ''axxam ines'') = cps ''axxam ines''"
  "\<forall>c\<in>set (cps ''axxamines''). is_word latin_lib c"
  "\<not> is_word latin_lib SPACE"
  by (simp_all add: latin_defs cps_def SPACE_def)

lemma eval_axxam_ines_is:
  assumes io: "iteration_order ord"
  shows "correct latin_lib ord (cps ''axxam ines is'') = cps ''axxam-ines is''"
proof -
  have ne: "cps ''axxam ines is'' \<noteq> []" by (simp add: cps_def)
  show ?thesis
    unfolding correct_unfold[OF ne]
    by (simp add: run_defs particles_defs latin_defs ms_alts_any_order[OF io])
qed

lemma eval_second_pass:
  assumes io: "iteration_order ord"
  shows "correct latin_lib ord (cps ''axxam-ines is'') = cps ''axxam-ines-is''"
proof -
  have ne: "cps ''axxam-ines is'' \<noteq> []" by (simp add: cps_def)
  show ?thesis
    unfolding correct_unfold[OF ne]
    by (simp add: run_defs particles_defs latin_defs ms_alts_any_order[OF io])
qed

lemma eval_no_match:
  assumes io: "iteration_order ord"
  shows "re_search latin_lib (annexation_pattern ord) (cps ''axxam-ines'') = None"
  by (simp add: re_search_def search_from.simps run_defs particles_defs latin_defs
      ms_alts_any_order[OF io])

lemma eval_mixed:
  assumes io: "iteration_order ord"
  shows "correct latin_lib ord (cps '' Axxam  INES  --aqbur '') = cps ''axxam-ines -aqbur''"
proof -
  have ne: "cps '' Axxam  INES  --aqbur '' \<noteq> []" by (simp add: cps_def)
  show ?thesis
    unfolding correct_unfold[OF ne]
    by (simp add: run_defs particles_defs latin_defs ms_alts_any_order[OF io])
qed

lemma eval_yefka_yas_t:
  assumes io: "iteration_order ord"
  shows "correct latin_lib ord (cps ''yefka yas t'') = cps ''yefka-yas t''"
proof -
  have ne: "cps ''yefka yas t'' \<noteq> []" by (simp add: cps_def)
  show ?thesis
    unfolding correct_unfold[OF ne]
    by (simp add: run_defs particles_defs latin_defs ms_alts_any_order[OF io])
qed

lemma eval_yefka_second_pass:
  assumes io: "iteration_order ord"
  shows "correct latin_lib ord (cps ''yefka-yas t'') = cps ''yefka-yas-t''"
proof -
  have ne: "cps ''yefka-yas t'' \<noteq> []" by (simp add: cps_def)
  show ?thesis
    unfolding correct_unfold[OF ne]
    by (simp add: run_defs particles_defs latin_defs ms_alts_any_order[OF io])
qed

lemma eval_letterlike: "correct letterlike_lib ord [8450] = [8450]"
proof -
  have ne: "[8450::nat] \<noteq> []" by simp
  show ?thesis
    unfolding correct_unfold[OF ne]
    by (simp add: run_defs letterlike_lib_def latin_defs)
qed

lemma latin_lower_gives: "lower_result_unchanged latin_lib"
  by (auto simp: lower_result_unchanged_def unchanged_by_lower_def latin_defs SPACE_def HYPHEN_def)

lemma latin_lower_keeps: "lower_keeps_unchanged latin_lib"
  by (simp add: lower_keeps_unchanged_def unchanged_by_lower_def latin_lib_def map_idI)

lemma six_letter_particles:
  "filter (\<lambda>p. - int (length p) = - 6) ord0 =
     [cps ''tentex'', cps ''sennig'', cps ''deffir'', cps ''nniden'', cps ''yawent'',
      cps ''yasent'']"
  by (simp add: particles_defs remdups_filter[symmetric])

lemma sorted_orders_differ: "sorted_all_annexable ord0 \<noteq> sorted_all_annexable ord1"
proof
  assume "sorted_all_annexable ord0 = sorted_all_annexable ord1"
  then have "filter (\<lambda>p. - int (length p) = - 6) (sorted_all_annexable ord0)
      = filter (\<lambda>p. - int (length p) = - 6) (sorted_all_annexable ord1)" by simp
  then have "filter (\<lambda>p. - int (length p) = - 6) ord0 = filter (\<lambda>p. - int (length p) = - 6) ord1"
    unfolding sorted_all_annexable_def sort_key_stable .
  then have "filter (\<lambda>p. - int (length p) = - 6) ord0
      = rev (filter (\<lambda>p. - int (length p) = - 6) ord0)"
    unfolding ord1_def rev_filter[symmetric] .
  then show False
    unfolding six_letter_particles by (simp add: cps_def)
qed

section \<open>The claims about the corrector\<close>

text \<open>
  A second pass returns the result of the first whenever the result of the first holds
  no match of the annexation pattern any more. (\<open>str.lower\<close> leaves the characters it
  returns as they are, and a text of such characters too.)
\<close>

lemma correct_fixed_point_without_match:
  assumes "lower_result_unchanged U" and "lower_keeps_unchanged U"
    and "re_search U (annexation_pattern ord) (correct U ord s) = None"
  shows "correct U ord (correct U ord s) = correct U ord s"
proof (rule correct_fixed)
  show "\<forall>c\<in>set (correct U ord s). unchanged_by_lower U c"
    using assms(1) correct_chars[of _ U ord s] unfolding lower_result_unchanged_def by blast
qed (use assms correct_clean[of U ord s] in auto)

lemma correct_fixed_point_of_axxam_ines:
  "lower_result_unchanged latin_lib \<and> lower_keeps_unchanged latin_lib
   \<and> re_search latin_lib (annexation_pattern ord0) (correct latin_lib ord0 (cps ''axxam ines'')) = None
   \<and> correct latin_lib ord0 (correct latin_lib ord0 (cps ''axxam ines'')) = cps ''axxam-ines''"
proof -
  have e: "correct latin_lib ord0 (cps ''axxam ines'') = cps ''axxam-ines''"
    by (rule eval_axxam_ines[OF iteration_order_ord0 latin_axxam_ines])
  have n: "re_search latin_lib (annexation_pattern ord0) (correct latin_lib ord0 (cps ''axxam ines'')) = None"
    unfolding e by (rule eval_no_match[OF iteration_order_ord0])
  show ?thesis
    using correct_fixed_point_without_match[OF latin_lower_gives latin_lower_keeps n]
      latin_lower_gives latin_lower_keeps n e by simp
qed

text \<open>
  C1 fails on the code: \<open>correct(correct(s)) == correct(s)\<close> does not hold of
  \<open>s = "axxam ines is"\<close>. The single \<open>re.sub\<close> replaces matches that do not overlap:
  it joins \<open>axxam\<close> and \<open>ines\<close> and resumes after \<open>ines\<close>, so \<open>ines is\<close> is only joined by a
  second pass. A verb with two object pronouns, \<open>yefka yas t\<close>, goes the same way.
\<close>

theorem correct_not_idempotent:
  "correct latin_lib ord0 (cps ''axxam ines is'') = cps ''axxam-ines is''
   \<and> correct latin_lib ord0 (correct latin_lib ord0 (cps ''axxam ines is'')) = cps ''axxam-ines-is''
   \<and> correct latin_lib ord0 (correct latin_lib ord0 (cps ''axxam ines is''))
       \<noteq> correct latin_lib ord0 (cps ''axxam ines is'')
   \<and> correct latin_lib ord0 (cps ''yefka yas t'') = cps ''yefka-yas t''
   \<and> correct latin_lib ord0 (cps ''yefka-yas t'') = cps ''yefka-yas-t''"
proof -
  have 1: "correct latin_lib ord0 (cps ''axxam ines is'') = cps ''axxam-ines is''"
    by (rule eval_axxam_ines_is[OF iteration_order_ord0])
  have 2: "correct latin_lib ord0 (cps ''axxam-ines is'') = cps ''axxam-ines-is''"
    by (rule eval_second_pass[OF iteration_order_ord0])
  have 3: "cps ''axxam-ines-is'' \<noteq> cps ''axxam-ines is''" by (simp add: cps_def)
  have 4: "correct latin_lib ord0 (cps ''yefka yas t'') = cps ''yefka-yas t''"
    by (rule eval_yefka_yas_t[OF iteration_order_ord0])
  have 5: "correct latin_lib ord0 (cps ''yefka-yas t'') = cps ''yefka-yas-t''"
    by (rule eval_yefka_second_pass[OF iteration_order_ord0])
  show ?thesis unfolding 1 2 4 5 using 3 by simp
qed

text \<open>
  C5, as the code has it: whatever the iteration order \<open>ord\<close> of the set, the list the
  alternation is built from holds each member of the union of the nine classes once, in
  order of non-increasing length; members of equal length keep the order they have in
  \<open>ord\<close>; and the alternation tries the members in the order of the list.
\<close>

theorem sorted_all_annexable_order:
  assumes "iteration_order ord"
  shows "distinct (sorted_all_annexable ord)
    \<and> set (sorted_all_annexable ord) =
        set PoPro \<union> set SpWo \<union> set StPa \<union> set StPaSp \<union> set DePa \<union> set DiPa \<union> set FuPa
          \<union> set DiObPa \<union> set InObPa
    \<and> sorted_wrt (\<lambda>p q. length q \<le> length p) (sorted_all_annexable ord)
    \<and> filter (\<lambda>p. length p = k) (sorted_all_annexable ord) = filter (\<lambda>p. length p = k) ord
    \<and> ms U t (alts (sorted_all_annexable ord)) (i, g) =
        map (\<lambda>p. (i + length p, g))
          (filter (\<lambda>p. take (length p) (drop i t) = p) (sorted_all_annexable ord))"
proof (intro conjI)
  show "distinct (sorted_all_annexable ord)"
    using assms by (simp add: sorted_all_annexable_def iteration_order_def)
  show "set (sorted_all_annexable ord) =
        set PoPro \<union> set SpWo \<union> set StPa \<union> set StPaSp \<union> set DePa \<union> set DiPa \<union> set FuPa
          \<union> set DiObPa \<union> set InObPa"
    using assms
    by (simp add: sorted_all_annexable_def iteration_order_def all_annexable_particles_def Un_assoc)
  have "sorted (map (\<lambda>p. - int (length p)) (sorted_all_annexable ord))"
    by (simp add: sorted_all_annexable_def)
  then show "sorted_wrt (\<lambda>p q. length q \<le> length p) (sorted_all_annexable ord)"
    by (simp add: sorted_map)
  have "filter (\<lambda>p. - int (length p) = - int k) (sorted_all_annexable ord)
      = filter (\<lambda>p. - int (length p) = - int k) ord"
    unfolding sorted_all_annexable_def by (rule sort_key_stable)
  then show "filter (\<lambda>p. length p = k) (sorted_all_annexable ord) = filter (\<lambda>p. length p = k) ord"
    by simp
  show "ms U t (alts (sorted_all_annexable ord)) (i, g) =
        map (\<lambda>p. (i + length p, g))
          (filter (\<lambda>p. take (length p) (drop i t) = p) (sorted_all_annexable ord))"
    by (rule ms_alts) (rule iteration_order_nonempty[OF assms])
qed

theorem sorted_all_annexable_order_witness:
  "iteration_order ord0 \<and> distinct (sorted_all_annexable ord0)
   \<and> sorted_wrt (\<lambda>p q. length q \<le> length p) (sorted_all_annexable ord0)
   \<and> filter (\<lambda>p. length p = 6) (sorted_all_annexable ord0) =
       [cps ''tentex'', cps ''sennig'', cps ''deffir'', cps ''nniden'', cps ''yawent'',
        cps ''yasent'']"
proof -
  have "filter (\<lambda>p. length p = 6) ord0 =
       [cps ''tentex'', cps ''sennig'', cps ''deffir'', cps ''nniden'', cps ''yawent'',
        cps ''yasent'']"
    using six_letter_particles by simp
  then show ?thesis
    using sorted_all_annexable_order[OF iteration_order_ord0, of 6] iteration_order_ord0
    by simp
qed

text \<open>
  C5 as stated fails: the order of members of equal length is not the same on every run,
  it follows the iteration order of the set. Two iteration orders give two lists.
\<close>

theorem tie_order_follows_iteration_order:
  "iteration_order ord0 \<and> iteration_order ord1
   \<and> sorted_all_annexable ord0 \<noteq> sorted_all_annexable ord1"
  using iteration_order_ord0 iteration_order_ord1 sorted_orders_differ by simp

text \<open>
  C6: \<open>correct("axxam ines") == "axxam-ines"\<close>, for every iteration order of the set and
  all tables in which the letters of the text are word characters, the space is not, and
  the text is its own lower case; \<open>ines\<close> is a member of the class \<open>PoPro\<close>.
\<close>

theorem correct_axxam_ines:
  assumes "iteration_order ord"
    and "str_lower U (cps ''axxam ines'') = cps ''axxam ines''"
    and "\<forall>c\<in>set (cps ''axxamines''). is_word U c" and "\<not> is_word U SPACE"
  shows "correct U ord (cps ''axxam ines'') = cps ''axxam-ines'' \<and> cps ''ines'' \<in> set PoPro"
  using eval_axxam_ines[OF assms] by (simp add: PoPro_def)

theorem correct_axxam_ines_witness:
  "iteration_order ord0
   \<and> str_lower latin_lib (cps ''axxam ines'') = cps ''axxam ines''
   \<and> list_all (is_word latin_lib) (cps ''axxamines'') \<and> \<not> is_word latin_lib SPACE
   \<and> correct latin_lib ord0 (cps ''axxam ines'') = cps ''axxam-ines''"
  using correct_axxam_ines[OF iteration_order_ord0 latin_axxam_ines]
    iteration_order_ord0 latin_axxam_ines by (simp add: list_all_iff)

text \<open>
  C8: in the output of \<open>correct\<close> no two whitespace characters are neighbours (so no two
  spaces are), every whitespace character is a space, the first and the last character
  are not whitespace, and no two hyphens are neighbours.
\<close>

theorem correct_output_clean:
  "\<not> adjacent is_space (correct U ord s)
   \<and> \<not> adjacent (\<lambda>c. c = SPACE) (correct U ord s)
   \<and> (\<forall>c\<in>set (correct U ord s). is_space c \<longrightarrow> c = SPACE)
   \<and> (correct U ord s \<noteq> [] \<longrightarrow>
        \<not> is_space (hd (correct U ord s)) \<and> \<not> is_space (last (correct U ord s)))
   \<and> \<not> adjacent (\<lambda>c. c = HYPHEN) (correct U ord s)"
proof -
  have "\<not> adjacent (\<lambda>c. c = SPACE) (correct U ord s)"
    using correct_clean(1)[of U ord s] adjacent_mono[of "\<lambda>c. c = SPACE" _ is_space] space_facts(1)
    by blast
  then show ?thesis using correct_clean[of U ord s] by blast
qed

theorem correct_output_clean_witness:
  "correct latin_lib ord0 (cps '' Axxam  INES  --aqbur '') = cps ''axxam-ines -aqbur''
   \<and> SPACE \<in> set (correct latin_lib ord0 (cps '' Axxam  INES  --aqbur '')) \<and> is_space SPACE
   \<and> correct latin_lib ord0 (cps '' Axxam  INES  --aqbur '') \<noteq> []
   \<and> \<not> is_space (hd (correct latin_lib ord0 (cps '' Axxam  INES  --aqbur '')))
   \<and> \<not> is_space (last (correct latin_lib ord0 (cps '' Axxam  INES  --aqbur '')))
   \<and> \<not> adjacent is_space (correct latin_lib ord0 (cps '' Axxam  INES  --aqbur ''))
   \<and> \<not> adjacent (\<lambda>c. c = HYPHEN) (correct latin_lib ord0 (cps '' Axxam  INES  --aqbur ''))"
proof -
  have e: "correct latin_lib ord0 (cps '' Axxam  INES  --aqbur '') = cps ''axxam-ines -aqbur''"
    by (rule eval_mixed[OF iteration_order_ord0])
  have m: "SPACE \<in> set (cps ''axxam-ines -aqbur'')" "cps ''axxam-ines -aqbur'' \<noteq> []"
    by (simp_all add: cps_def SPACE_def)
  show ?thesis
    using correct_output_clean[of latin_lib ord0 "cps '' Axxam  INES  --aqbur ''"] m space_facts(1)
    unfolding e by blast
qed

text \<open>
  C9, as the code has it: every character of the output of \<open>correct\<close> is a character of
  the lower-cased input \<open>text.lower()\<close>, a space or a hyphen; so \<open>str.lower\<close> leaves
  every character of the output as it is (given that it leaves the characters it returns
  as they are). An upper-case character of the output is one that has no lower case.
\<close>

theorem correct_output_unchanged_by_lower:
  "set (correct U ord s) \<subseteq> set (str_lower U s) \<union> {SPACE, HYPHEN}
   \<and> (lower_result_unchanged U \<longrightarrow> (\<forall>c\<in>set (correct U ord s). unchanged_by_lower U c))"
proof
  show "set (correct U ord s) \<subseteq> set (str_lower U s) \<union> {SPACE, HYPHEN}"
    using correct_chars[of _ U ord s] by blast
  show "lower_result_unchanged U \<longrightarrow> (\<forall>c\<in>set (correct U ord s). unchanged_by_lower U c)"
    using correct_chars[of _ U ord s] unfolding lower_result_unchanged_def by blast
qed

theorem correct_output_unchanged_by_lower_witness:
  "lower_result_unchanged latin_lib
   \<and> correct latin_lib ord0 (cps '' Axxam  INES  --aqbur '') = cps ''axxam-ines -aqbur''
   \<and> list_all (unchanged_by_lower latin_lib) (cps ''axxam-ines -aqbur'')
   \<and> \<not> unchanged_by_lower latin_lib (of_char CHR ''A'')"
proof -
  have e: "correct latin_lib ord0 (cps '' Axxam  INES  --aqbur '') = cps ''axxam-ines -aqbur''"
    by (rule eval_mixed[OF iteration_order_ord0])
  have u: "\<not> unchanged_by_lower latin_lib (of_char CHR ''A'')"
    by (simp add: unchanged_by_lower_def latin_defs)
  show ?thesis
    using correct_output_unchanged_by_lower[of latin_lib ord0 "cps '' Axxam  INES  --aqbur ''"]
      latin_lower_gives u
    unfolding e list_all_iff by blast
qed

text \<open>
  C9 as stated fails: U+2102 is an upper-case character, \<open>text.lower()\<close> leaves it as it
  is, and so does \<open>correct\<close>; the output holds an upper-case character.
\<close>

theorem upper_case_without_lower_case_kept:
  "is_upper letterlike_lib 8450
   \<and> str_lower letterlike_lib [8450] = [8450]
   \<and> correct letterlike_lib ord0 [8450] = [8450]"
proof -
  have "is_upper letterlike_lib 8450" "str_lower letterlike_lib [8450] = [8450]"
    by (simp_all add: letterlike_lib_def latin_defs)
  then show ?thesis using eval_letterlike[of ord0] by blast
qed

text \<open>
  C10: the output of \<open>correct\<close> does not depend on the iteration order of the set, that
  is, on the order of particles of equal length in the alternation.
\<close>

theorem correct_independent_of_tie_order:
  assumes "iteration_order o1" and "iteration_order o2"
  shows "correct U o1 s = correct U o2 s"
  using assms by (rule correct_order)

theorem correct_independent_of_tie_order_witness:
  "iteration_order ord0 \<and> iteration_order ord1
   \<and> sorted_all_annexable ord0 \<noteq> sorted_all_annexable ord1
   \<and> correct latin_lib ord0 (cps ''axxam ines is'') = correct latin_lib ord1 (cps ''axxam ines is'')"
  using correct_independent_of_tie_order[OF iteration_order_ord0 iteration_order_ord1]
    iteration_order_ord0 iteration_order_ord1 sorted_orders_differ by simp

section \<open>The claims about the endpoint\<close>

lemmas response_defs = not_loaded_def no_audio_def no_selected_file_def audio_error_def
  model_error_def no_text_def internal_error_def

lemmas request_defs = a_wav_def empty_wav_def all_fine_def

lemma jsonify_cases:
  "jsonify_transcription v = Raises \<or> jsonify_transcription v = Returns (Transcription v, 200)"
  by (cases v) auto

lemma respond_status: "snd (respond U ord ts) = 200 \<or> snd (respond U ord ts) = 500"
proof (cases ts)
  case Nil
  then show ?thesis by (simp add: respond_def no_text_def)
next
  case (Cons h rest)
  show ?thesis
  proof (cases "text_attr h")
    case None
    then show ?thesis using Cons by (simp add: respond_def no_text_def)
  next
    case (Some v)
    then show ?thesis
      using Cons jsonify_cases[of "post_process_kabyle_text U ord v"]
      by (auto simp: respond_def no_text_def internal_error_def)
  qed
qed

lemma try_block_status:
  "snd (fst (try_block U ord W fs)) = 200 \<or> snd (fst (try_block U ord W fs)) = 500"
  using respond_status[of U ord]
  by (auto simp: try_block_def response_defs split: outcome.splits)

lemma transcribe_accepted:
  assumes "files_audio req = Some f" and "filename f \<noteq> []"
  shows "status_of (fst (transcribe U ord True req W fs)) \<noteq> Some 400"
proof -
  obtain resp a b fs1 where t: "try_block U ord W fs = (resp, a, b, fs1)"
    by (cases "try_block U ord W fs") auto
  obtain bd st where r: "resp = (bd, st)" by (cases resp)
  have "st = 200 \<or> st = 500" using try_block_status[of U ord W fs] t r by simp
  then show ?thesis
    using assms t r by (auto simp: transcribe_def split: outcome.splits)
qed

text \<open>
  C2 fails on the code. When \<open>audio_file.save\<close> raises, the first temporary file exists
  but \<open>temp_input_file\<close> is still \<open>None\<close>, and the \<open>finally\<close> block leaves the file on
  disk; the same holds of the second file when \<open>export\<close> raises. When \<open>os.remove\<close>
  raises, its exception takes the place of the response.
\<close>

theorem temp_files_left_behind:
  "transcribe latin_lib ord0 True a_wav ((all_fine [])\<lparr>save_ok := False\<rparr>) {}
     = (Returns internal_error, {1})
   \<and> transcribe latin_lib ord0 True a_wav ((all_fine [])\<lparr>export_ok := False\<rparr>) {}
     = (Returns audio_error, {2})
   \<and> transcribe latin_lib ord0 True a_wav ((all_fine [])\<lparr>remove_ok := (\<lambda>p. False)\<rparr>) {}
     = (Raises, {1, 2})"
  by (auto simp: transcribe_def try_block_def remove_if_exists_def respond_def request_defs cps_def)

text \<open>
  C3, as the code has it: with the model loaded, the status is 400 exactly when the
  request has no file under \<open>audio\<close> or the file name is empty, and then the disk is as
  before. The bytes of the file are not looked at.
\<close>

theorem invalid_input_iff:
  "(status_of (fst (transcribe U ord True req W fs)) = Some 400)
     = (case files_audio req of None \<Rightarrow> True | Some f \<Rightarrow> filename f = [])
   \<and> (status_of (fst (transcribe U ord True req W fs)) = Some 400
        \<longrightarrow> snd (transcribe U ord True req W fs) = fs)"
proof (cases "files_audio req")
  case None
  then show ?thesis by (simp add: transcribe_def no_audio_def)
next
  case (Some f)
  show ?thesis
  proof (cases "filename f = []")
    case True
    then show ?thesis using Some by (simp add: transcribe_def no_selected_file_def)
  next
    case False
    then show ?thesis using Some transcribe_accepted[OF Some False, of U ord W fs] by simp
  qed
qed

theorem invalid_input_iff_witness:
  "status_of (fst (transcribe latin_lib ord0 True
       \<lparr> files_audio = Some \<lparr> filename = [], payload = [82, 73, 70, 70] \<rparr> \<rparr> (all_fine []) {}))
     = Some 400
   \<and> snd (transcribe latin_lib ord0 True
       \<lparr> files_audio = Some \<lparr> filename = [], payload = [82, 73, 70, 70] \<rparr> \<rparr> (all_fine []) {})
     = {}"
  using invalid_input_iff[of latin_lib ord0
      "\<lparr> files_audio = Some \<lparr> filename = [], payload = [82, 73, 70, 70] \<rparr> \<rparr>" "all_fine []" "{}"]
  by simp

text \<open>
  C3 as stated fails: a file with a name and no bytes is not rejected with status 400; it
  is stored, and here the decoding fails with status 500.
\<close>

theorem empty_payload_not_rejected:
  "transcribe latin_lib ord0 True empty_wav ((all_fine [])\<lparr>decode_ok := False\<rparr>) {}
     = (Returns (Error ''Failed to process audio file. Please ensure it's a valid audio format.'', 500), {})"
  by (simp add: transcribe_def try_block_def remove_if_exists_def request_defs cps_def
      audio_error_def)

text \<open>
  C4, as the code has it: when every earlier stage succeeded and the files are removed,
  the answer is the error "No text returned" with status 500 exactly when the list is
  empty, or its first element is falsy or has no attribute \<open>text\<close>. The status is 200
  exactly when the first element is truthy and has an attribute \<open>text\<close> whose value JSON
  can encode, and then the body is that value after \<open>post_process_kabyle_text\<close>, which
  is the value itself unless it is a \<open>str\<close>. In every other case the status is 500; for
  a value JSON cannot encode the answer is the error "An internal server error occurred".
\<close>

theorem no_text_iff:
  assumes "files_audio req = Some f" and "filename f \<noteq> []"
    and "tmp_audio W = Returns p1" and "save_ok W" and "decode_ok W"
    and "processed_tmp W = Returns p2" and "export_ok W"
    and "asr_transcribe W = Returns ts"
    and "remove_ok W p1" and "remove_ok W p2"
  shows "((fst (transcribe U ord True req W fs) = Returns no_text)
       = (case ts of [] \<Rightarrow> True | h # _ \<Rightarrow> \<not> truthy h \<or> text_attr h = None))
     \<and> ((status_of (fst (transcribe U ord True req W fs)) = Some 200)
       = (case ts of [] \<Rightarrow> False
          | h # _ \<Rightarrow> truthy h \<and> (case text_attr h of None \<Rightarrow> False | Some v \<Rightarrow> json_encodable v)))
     \<and> (status_of (fst (transcribe U ord True req W fs)) = Some 200
        \<or> status_of (fst (transcribe U ord True req W fs)) = Some 500)
     \<and> (\<forall>h rest v. ts = h # rest \<and> truthy h \<and> text_attr h = Some v \<and> json_encodable v
          \<longrightarrow> fst (transcribe U ord True req W fs)
                = Returns (Transcription (post_process_kabyle_text U ord v), 200)
              \<and> ((\<forall>s. v \<noteq> PStr s) \<longrightarrow> post_process_kabyle_text U ord v = v))
     \<and> (\<forall>h rest v. ts = h # rest \<and> truthy h \<and> text_attr h = Some v \<and> \<not> json_encodable v
          \<longrightarrow> fst (transcribe U ord True req W fs) = Returns internal_error)"
proof -
  have r: "fst (transcribe U ord True req W fs) = Returns (respond U ord ts)"
    using assms
    by (auto simp: transcribe_def try_block_def remove_if_exists_def split: outcome.splits)
  have j: "jsonify_transcription v
      = (if json_encodable v then Returns (Transcription v, 200) else Raises)" for v
    by (cases v) auto
  have pe: "json_encodable (post_process_kabyle_text U ord v) = json_encodable v" for v
    by (cases v) auto
  have pv: "(\<forall>s. v \<noteq> PStr s) \<longrightarrow> post_process_kabyle_text U ord v = v" for v
    by (cases v) auto
  show ?thesis
  proof (cases ts)
    case Nil
    then show ?thesis by (simp add: r respond_def no_text_def)
  next
    case (Cons h rest)
    show ?thesis
    proof (cases "text_attr h")
      case None
      then show ?thesis using Cons by (simp add: r respond_def no_text_def)
    next
      case (Some v)
      then show ?thesis
        using Cons pv[of v]
        by (auto simp: r respond_def j pe no_text_def internal_error_def)
    qed
  qed
qed

theorem no_text_iff_witness:
  "files_audio a_wav = Some \<lparr> filename = cps ''a.wav'', payload = [82, 73, 70, 70] \<rparr>
   \<and> cps ''a.wav'' \<noteq> []
   \<and> fst (transcribe latin_lib ord0 True a_wav (all_fine []) {}) = Returns no_text
   \<and> fst (transcribe latin_lib ord0 True a_wav
        (all_fine [\<lparr> truthy = True, text_attr = None \<rparr>]) {}) = Returns no_text
   \<and> fst (transcribe latin_lib ord0 True a_wav
        (all_fine [\<lparr> truthy = True, text_attr = Some (PObject 0) \<rparr>]) {})
       = Returns internal_error
   \<and> fst (transcribe latin_lib ord0 True a_wav
        (all_fine [\<lparr> truthy = True, text_attr = Some (PJson 7) \<rparr>]) {})
       = Returns (Transcription (PJson 7), 200)"
proof -
  have f: "files_audio a_wav = Some \<lparr> filename = cps ''a.wav'', payload = [82, 73, 70, 70] \<rparr>"
    by (simp add: a_wav_def)
  have n: "filename \<lparr> filename = cps ''a.wav'', payload = [82, 73, 70, 70] \<rparr> \<noteq> []"
    by (simp add: cps_def)
  have w: "tmp_audio (all_fine ts) = Returns 1" "save_ok (all_fine ts)" "decode_ok (all_fine ts)"
    "processed_tmp (all_fine ts) = Returns 2" "export_ok (all_fine ts)"
    "asr_transcribe (all_fine ts) = Returns ts" "remove_ok (all_fine ts) 1"
    "remove_ok (all_fine ts) 2" for ts
    by (simp_all add: all_fine_def)
  show ?thesis
    using no_text_iff[where U = latin_lib and ord = ord0 and fs = "{}", OF f n w[of "[]"]]
      no_text_iff[where U = latin_lib and ord = ord0 and fs = "{}",
        OF f n w[of "[\<lparr> truthy = True, text_attr = None \<rparr>]"]]
      no_text_iff[where U = latin_lib and ord = ord0 and fs = "{}",
        OF f n w[of "[\<lparr> truthy = True, text_attr = Some (PObject 0) \<rparr>]"]]
      no_text_iff[where U = latin_lib and ord = ord0 and fs = "{}",
        OF f n w[of "[\<lparr> truthy = True, text_attr = Some (PJson 7) \<rparr>]"]]
      f n
    by auto
qed

text \<open>
  C4 as stated fails: an element whose attribute \<open>text\<close> is \<open>None\<close> has no usable text,
  and the answer is status 200 with the transcription \<open>None\<close>, not status 500.
\<close>

theorem text_none_returns_200:
  "transcribe latin_lib ord0 True a_wav (all_fine [\<lparr> truthy = True, text_attr = Some PNone \<rparr>]) {}
     = (Returns (Transcription PNone, 200), {})"
  by (auto simp: transcribe_def try_block_def remove_if_exists_def respond_def request_defs
      cps_def)

text \<open>
  C7: when the model was not loaded at start, every request is answered with status 503
  and the disk is as before, whatever the request and the collaborators.
\<close>

theorem model_not_loaded:
  "transcribe U ord False req W fs = (Returns (Error ''ASR model is not loaded.'', 503), fs)"
  by (simp add: transcribe_def not_loaded_def)

theorem model_not_loaded_witness:
  "transcribe latin_lib ord0 False a_wav (all_fine []) {1, 2}
     = (Returns (Error ''ASR model is not loaded.'', 503), {1, 2})"
  using model_not_loaded[of latin_lib ord0 a_wav "all_fine []" "{1, 2}"] by simp

end
